theory Spec2Isabelle
  imports Complex_Main
begin

section \<open>The AudioManager of shared-env.js\<close>

text \<open>
  The object \<^verbatim>\<open>AudioManager\<close> of \<^verbatim>\<open>src/shared-env.js\<close> (lines 84 to 163) owns three
  \<^verbatim>\<open>Audio\<close> elements and a list of timer handles. Its methods only arm browser timers;
  everything that happens later happens inside a timer callback or inside the
  \<^verbatim>\<open>ended\<close> listener of the birds element. The model therefore has three layers:

  \<^item> the \<^verbatim>\<open>Audio\<close> elements, kept in a store because \<^verbatim>\<open>init\<close> allocates fresh ones and
    closures capture them by reference;
  \<^item> the browser's table of active timers, with the closures of the source
    defunctionalised into the datatype \<open>callback\<close>;
  \<^item> the methods of \<^verbatim>\<open>AudioManager\<close>, as functions from state to state.

  JavaScript numbers are modelled as exact reals: no rounding, no infinities, no NaN.
  Each call of \<^verbatim>\<open>Math.random()\<close> and the platform's answer to \<^verbatim>\<open>play()\<close> are
  inputs of the event that performs them.
\<close>

subsection \<open>Audio elements\<close>

record audio =
  src :: string
  loop :: bool
  volume :: real
  paused :: bool
  currentTime :: real
  ended_hook :: bool

text \<open>
  \<^verbatim>\<open>new Audio(url)\<close>: a paused element at position 0 with volume 1, not looping, no
  listener. \<open>ended_hook\<close> records that the listener
  \<^verbatim>\<open>() => this.scheduleNextBird()\<close> of line 98 is registered on the element.
\<close>

definition new_Audio :: "string \<Rightarrow> audio" where
  "new_Audio url =
     \<lparr>src = url, loop = False, volume = 1, paused = True, currentTime = 0,
      ended_hook = False\<rparr>"

subsection \<open>Closures and timers\<close>

text \<open>
  The completion callbacks handed to \<^verbatim>\<open>fadeAudio\<close>: none (\<^verbatim>\<open>if (cb)\<close> fails), a
  caller's own function (opaque, identified by a tag), the callback of line 139 that
  arms the hold, and the callback of line 141 that pauses \<^verbatim>\<open>waves2\<close> and re-arms
  the swell.
\<close>

datatype fade_cb =
    NoCb
  | UserCb nat
  | AfterFadeIn real real real
  | AfterFadeOut

text \<open>
  The timer callbacks: line 119 (bird cue), line 126 (swell cue), line 140 (end of the
  hold, capturing \<^verbatim>\<open>targetVol\<close> and \<^verbatim>\<open>fadeOutTime\<close>) and line 155 (one step of
  an envelope, capturing \<^verbatim>\<open>audio\<close>, \<^verbatim>\<open>startVol\<close>, \<^verbatim>\<open>volStep\<close>, the mutable
  counter \<^verbatim>\<open>step\<close> and \<^verbatim>\<open>cb\<close>).
\<close>

datatype callback =
    BirdCue
  | SwellCue
  | HoldDone real real
  | FadeTick "nat option" real real nat fade_cb

datatype timer_kind = Timeout | Interval

record timer =
  kind :: timer_kind
  delay :: real
  body :: callback

subsection \<open>State\<close>

text \<open>
  \<open>waves\<close>, \<open>birds\<close>, \<open>waves2\<close> and \<open>timers\<close> are the fields of \<^verbatim>\<open>AudioManager\<close>
  (\<open>None\<close> is \<^verbatim>\<open>null\<close>, \<open>Some r\<close> a reference into \<open>heap\<close>). \<open>heap\<close> holds every
  \<^verbatim>\<open>Audio\<close> element ever created; \<open>pending\<close> is the browser's table of active timers and
  \<open>next_id\<close> the next handle it hands out. \<open>ran\<close> and \<open>called\<close> are observation logs: the
  handles of the timers whose callback body was executed, and the handles of the
  envelopes whose completion callback was invoked.
\<close>

record world =
  waves :: "nat option"
  birds :: "nat option"
  waves2 :: "nat option"
  timers :: "nat list"
  heap :: "audio list"
  pending :: "(nat \<times> timer) list"
  next_id :: nat
  ran :: "nat list"
  called :: "nat list"

text \<open>The inputs an event takes from its environment.\<close>

record draws =
  allow :: bool
  rnd1 :: real
  rnd2 :: real
  rnd3 :: real
  rnd4 :: real

subsection \<open>Browser primitives\<close>

text \<open>
  \<^verbatim>\<open>setTimeout\<close> and \<^verbatim>\<open>setInterval\<close> share one table and one pool of handles, and
  \<^verbatim>\<open>clearTimeout\<close> and \<^verbatim>\<open>clearInterval\<close> are interchangeable: both remove the handle
  from the table, and clearing a handle that is not there does nothing.
\<close>

definition setTimer :: "timer_kind \<Rightarrow> callback \<Rightarrow> real \<Rightarrow> world \<Rightarrow> nat \<times> world" where
  "setTimer k f ms s =
     (next_id s,
      s\<lparr>pending := pending s @ [(next_id s, \<lparr>kind = k, delay = ms, body = f\<rparr>)],
        next_id := Suc (next_id s)\<rparr>)"

definition clearTimer :: "nat \<Rightarrow> world \<Rightarrow> world" where
  "clearTimer i s = s\<lparr>pending := filter (\<lambda>p. fst p \<noteq> i) (pending s)\<rparr>"

definition set_body :: "nat \<Rightarrow> callback \<Rightarrow> world \<Rightarrow> world" where
  "set_body i f s =
     s\<lparr>pending := map (\<lambda>p. if fst p = i then (fst p, (snd p)\<lparr>body := f\<rparr>) else p) (pending s)\<rparr>"

text \<open>
  Writes to an element. A reference outside the store never arises from the manager's own
  fields; a write through one changes nothing.
\<close>

definition upd_audio :: "nat \<Rightarrow> (audio \<Rightarrow> audio) \<Rightarrow> world \<Rightarrow> world" where
  "upd_audio r f s = s\<lparr>heap := (heap s)[r := f (heap s ! r)]\<rparr>"

text \<open>
  \<^verbatim>\<open>play()\<close> starts playback unless the platform refuses it; the rejected promise is
  swallowed by \<^verbatim>\<open>.catch(() => {})\<close>.
\<close>

definition play :: "bool \<Rightarrow> nat \<Rightarrow> world \<Rightarrow> world" where
  "play ok r s = (if ok then upd_audio r (\<lambda>a. a\<lparr>paused := False\<rparr>) s else s)"

definition pause :: "nat \<Rightarrow> world \<Rightarrow> world" where
  "pause r s = upd_audio r (\<lambda>a. a\<lparr>paused := True\<rparr>) s"

subsection \<open>The methods of AudioManager\<close>

definition initial :: world where
  "initial =
     \<lparr>waves = None, birds = None, waves2 = None, timers = [], heap = [], pending = [],
      next_id = 1, ran = [], called = []\<rparr>"

definition init :: "world \<Rightarrow> world" where
  "init s =
     (let n = length (heap s) in
      s\<lparr>waves := Some n, birds := Some (n + 1), waves2 := Some (n + 2),
        heap := heap s @
          [(new_Audio ''waves.mp3'')\<lparr>loop := True, volume := 0.4\<rparr>,
           (new_Audio ''birds.mp3'')\<lparr>volume := 0.6, ended_hook := True\<rparr>,
           (new_Audio ''waves2.mp3'')\<lparr>volume := 0, loop := True\<rparr>]\<rparr>)"

text \<open>Line 163: the script calls \<^verbatim>\<open>AudioManager.init()\<close> once when it is loaded.\<close>

definition loaded :: world where
  "loaded = init initial"

definition scheduleNextBird :: "real \<Rightarrow> world \<Rightarrow> world" where
  "scheduleNextBird u s =
     (let (t, s1) = setTimer Timeout BirdCue (u * 17000 + 8000) s
      in s1\<lparr>timers := timers s1 @ [t]\<rparr>)"

definition scheduleWaves2 :: "real \<Rightarrow> world \<Rightarrow> world" where
  "scheduleWaves2 u s =
     (let (t, s1) = setTimer Timeout SwellCue (u * 20000 + 10000) s
      in s1\<lparr>timers := timers s1 @ [t]\<rparr>)"

definition start :: "draws \<Rightarrow> world \<Rightarrow> world" where
  "start d s =
     (let s1 = (if waves s = None then init s else s);
          s2 = (case waves s1 of None \<Rightarrow> s1 | Some w \<Rightarrow> play (allow d) w s1);
          s3 = scheduleNextBird (rnd1 d) s2
      in scheduleWaves2 (rnd2 d) s3)"

definition stop :: "world \<Rightarrow> world" where
  "stop s =
     (let s1 = (case waves s of None \<Rightarrow> s | Some w \<Rightarrow> pause w s);
          s2 = (case birds s1 of None \<Rightarrow> s1 | Some b \<Rightarrow> pause b s1);
          s3 = (case waves2 s2 of None \<Rightarrow> s2 | Some w \<Rightarrow> pause w s2);
          s4 = fold clearTimer (timers s3) s3
      in s4\<lparr>timers := []\<rparr>)"

definition fadeAudio :: "nat option \<Rightarrow> real \<Rightarrow> real \<Rightarrow> real \<Rightarrow> fade_cb \<Rightarrow> world \<Rightarrow> world" where
  "fadeAudio a startVol endVol duration cb s =
     (let steps = 60;
          stepTime = duration / steps;
          volStep = (endVol - startVol) / steps;
          (iv, s1) = setTimer Interval (FadeTick a startVol volStep 0 cb) stepTime s
      in s1\<lparr>timers := timers s1 @ [iv]\<rparr>)"

definition playWaves2Swell :: "draws \<Rightarrow> world \<Rightarrow> world" where
  "playWaves2Swell d s =
     (case waves2 s of
        None \<Rightarrow> s
      | Some w \<Rightarrow>
          let s1 = upd_audio w (\<lambda>a. a\<lparr>currentTime := 0\<rparr>) s;
              s2 = play (allow d) w s1;
              targetVol = rnd1 d * 0.5 + 0.3;
              duration = rnd2 d * 10000 + 8000;
              fadeInTime = rnd3 d * 3000 + 2000;
              fadeOutTime = rnd4 d * 3000 + 2000
          in fadeAudio (Some w) 0 targetVol fadeInTime
               (AfterFadeIn targetVol duration fadeOutTime) s2)"

subsection \<open>Running a callback\<close>

text \<open>
  The completion callback of envelope \<open>i\<close>. \<^verbatim>\<open>if (cb) cb()\<close> skips a missing callback.
  The callback of line 141 dereferences \<^verbatim>\<open>this.waves2\<close> when it runs; on \<^verbatim>\<open>null\<close> it
  throws before re-arming.
\<close>

fun invoke_cb :: "nat \<Rightarrow> fade_cb \<Rightarrow> draws \<Rightarrow> world \<Rightarrow> world" where
  "invoke_cb i NoCb d s = s"
| "invoke_cb i (UserCb n) d s = s\<lparr>called := called s @ [i]\<rparr>"
| "invoke_cb i (AfterFadeIn targetVol duration fadeOutTime) d s =
     (let s0 = s\<lparr>called := called s @ [i]\<rparr>;
          (hold, s1) = setTimer Timeout (HoldDone targetVol fadeOutTime) duration s0
      in s1\<lparr>timers := timers s1 @ [hold]\<rparr>)"
| "invoke_cb i AfterFadeOut d s =
     (let s0 = s\<lparr>called := called s @ [i]\<rparr>
      in case waves2 s0 of
           None \<Rightarrow> s0
         | Some w \<Rightarrow> scheduleWaves2 (rnd1 d) (pause w s0))"

text \<open>
  The body of timer \<open>i\<close>. A step of an envelope increments the captured counter, writes the
  clamped interpolated volume and, on reaching 60, clears its own interval and invokes the
  completion callback. With \<^verbatim>\<open>audio\<close> \<^verbatim>\<open>null\<close> the assignment throws after the
  increment, so the step ends there.
\<close>

fun run_callback :: "nat \<Rightarrow> callback \<Rightarrow> draws \<Rightarrow> world \<Rightarrow> world" where
  "run_callback i BirdCue d s =
     (case birds s of
        None \<Rightarrow> s
      | Some b \<Rightarrow> play (allow d) b (upd_audio b (\<lambda>a. a\<lparr>currentTime := 0\<rparr>) s))"
| "run_callback i SwellCue d s = playWaves2Swell d s"
| "run_callback i (HoldDone targetVol fadeOutTime) d s =
     fadeAudio (waves2 s) targetVol 0 fadeOutTime AfterFadeOut s"
| "run_callback i (FadeTick a startVol volStep n cb) d s =
     (let step = n + 1;
          s1 = set_body i (FadeTick a startVol volStep step cb) s
      in case a of
           None \<Rightarrow> s1
         | Some r \<Rightarrow>
             let s2 = upd_audio r
                        (\<lambda>x. x\<lparr>volume := max 0 (min 1 (startVol + volStep * real step))\<rparr>) s1
             in if step \<ge> 60 then invoke_cb i cb d (clearTimer i s2) else s2)"

subsection \<open>Events\<close>

text \<open>
  The browser runs the callback of a timer only while its handle is in the table of active
  timers; a one-shot timer leaves the table when it fires.
\<close>

definition fire :: "nat \<Rightarrow> draws \<Rightarrow> world \<Rightarrow> world" where
  "fire i d s =
     (case map_of (pending s) i of
        None \<Rightarrow> s
      | Some t \<Rightarrow>
          let s1 = (if kind t = Timeout then clearTimer i s else s);
              s2 = s1\<lparr>ran := ran s1 @ [i]\<rparr>
          in run_callback i (body t) d s2)"

text \<open>
  An element that is playing and does not loop reaches its end: the browser pauses it and
  dispatches \<^verbatim>\<open>ended\<close>, which runs the listener of line 98 where it is registered.
\<close>

definition ended :: "nat \<Rightarrow> draws \<Rightarrow> world \<Rightarrow> world" where
  "ended r d s =
     (if r < length (heap s) \<and> \<not> paused (heap s ! r) \<and> \<not> loop (heap s ! r)
      then let s1 = pause r s
           in if ended_hook (heap s ! r) then scheduleNextBird (rnd1 d) s1 else s1
      else s)"

text \<open>
  What can happen to the manager: its host calls a method, a timer comes due, an element
  ends. JavaScript runs each of these to completion before the next begins. Time passing
  is a sequence of events of the last two kinds; the model puts no constraint on their
  order, so a statement about all sequences holds for every timing the browser can produce.
\<close>

datatype event =
    Init
  | Start draws
  | Stop
  | Fade "nat option" real real real fade_cb
  | Fire nat draws
  | Ended nat draws

fun step :: "event \<Rightarrow> world \<Rightarrow> world" where
  "step Init s = init s"
| "step (Start d) s = start d s"
| "step Stop s = stop s"
| "step (Fade a startVol endVol duration cb) s = fadeAudio a startVol endVol duration cb s"
| "step (Fire i d) s = fire i d s"
| "step (Ended r d) s = ended r d s"

definition run :: "event list \<Rightarrow> world \<Rightarrow> world" where
  "run es s = fold step es s"


text \<open>The number of armed timers that carry a given callback.\<close>

definition armed :: "callback \<Rightarrow> world \<Rightarrow> nat" where
  "armed f s = length (filter (\<lambda>p. body (snd p) = f) (pending s))"

text \<open>
  Sample inputs for the concrete sessions below: the platform allows playback and every
  \<^verbatim>\<open>Math.random()\<close> returns one half.
\<close>

definition mid :: draws where
  "mid = \<lparr>allow = True, rnd1 = 1/2, rnd2 = 1/2, rnd3 = 1/2, rnd4 = 1/2\<rparr>"


subsection \<open>Auxiliary notions for the proofs\<close>

text \<open>
  \<open>registered\<close>: every active timer has its handle in \<^verbatim>\<open>this.timers\<close>.
  \<open>fresh\<close>: every handle in use is below the next handle of the browser.
  \<open>sole\<close>: the store holds the three elements of the first \<^verbatim>\<open>init\<close> and nothing else.
\<close>

definition registered :: "world \<Rightarrow> bool" where
  "registered s \<longleftrightarrow> (\<forall>p\<in>set (pending s). fst p \<in> set (timers s))"

definition fresh :: "world \<Rightarrow> bool" where
  "fresh s \<longleftrightarrow>
     (\<forall>p\<in>set (pending s). fst p < next_id s) \<and>
     (\<forall>i\<in>set (ran s). i < next_id s) \<and> (\<forall>i\<in>set (called s). i < next_id s)"



text \<open>How often timer \<open>iv\<close> comes due in a sequence of events.\<close>

fun fires :: "nat \<Rightarrow> event list \<Rightarrow> nat" where
  "fires iv [] = 0"
| "fires iv (Fire i d # es) = (if i = iv then Suc (fires iv es) else fires iv es)"
| "fires iv (e # es) = fires iv es"

text \<open>
  The life of one envelope, seen from outside: armed with \<open>n\<close> steps done, cancelled by
  \<^verbatim>\<open>stop\<close>, or completed. \<open>adv\<close> is the effect of an event on it, and \<open>tracks\<close> ties the
  phase to the state: the entry of the interval in the timer table, the number of times its
  body ran, and the number of times its completion callback was invoked.
\<close>

datatype phase = Alive nat | Cancelled | Completed

fun adv :: "nat \<Rightarrow> event \<Rightarrow> phase \<Rightarrow> phase" where
  "adv iv (Fire i d) (Alive n) =
     (if i = iv then (if 60 \<le> Suc n then Completed else Alive (Suc n)) else Alive n)"
| "adv iv Stop (Alive n) = Cancelled"
| "adv iv e p = p"

definition tracks :: "nat \<Rightarrow> nat \<Rightarrow> real \<Rightarrow> real \<Rightarrow> fade_cb \<Rightarrow> phase \<Rightarrow> world \<Rightarrow> bool" where
  "tracks iv r sv vs cb p s \<longleftrightarrow>
     iv < next_id s \<and>
     (case p of
        Alive n \<Rightarrow>
          n < 60 \<and>
          (\<exists>dl. map_of (pending s) iv =
                  Some \<lparr>kind = Interval, delay = dl, body = FadeTick (Some r) sv vs n cb\<rparr>) \<and>
          count_list (ran s) iv = n \<and> count_list (called s) iv = 0
      | Cancelled \<Rightarrow>
          map_of (pending s) iv = None \<and> count_list (ran s) iv < 60 \<and>
          count_list (called s) iv = 0
      | Completed \<Rightarrow>
          map_of (pending s) iv = None \<and> count_list (ran s) iv = 60 \<and>
          count_list (called s) iv = (if cb = NoCb then 0 else 1))"

text \<open>
  What the manager can observe of itself: its three channels read through their
  references, its timer handles, the browser's timers and the logs. \<open>playing\<close> lists the
  elements of the store that are not paused.
\<close>

definition chan :: "world \<Rightarrow> nat option \<Rightarrow> audio option" where
  "chan s c =
     (case c of
        None \<Rightarrow> None
      | Some r \<Rightarrow> if r < length (heap s) then Some (heap s ! r) else None)"

definition session_view ::
  "world \<Rightarrow> audio option \<times> audio option \<times> audio option \<times> nat list \<times>
     (nat \<times> timer) list \<times> nat \<times> nat list \<times> nat list" where
  "session_view s =
     (chan s (waves s), chan s (birds s), chan s (waves2 s), timers s, pending s, next_id s,
      ran s, called s)"

definition playing :: "world \<Rightarrow> nat list" where
  "playing s = filter (\<lambda>r. \<not> paused (heap s ! r)) [0..<length (heap s)]"

section \<open>Lemmas\<close>

subsection \<open>Lookups in the timer table\<close>

lemma map_of_filter_ne:
  "map_of (filter (\<lambda>p. fst p \<noteq> j) xs) i = (if i = j then None else map_of xs i)"
  by (induction xs) auto

lemma map_of_filter_notin:
  "map_of (filter (\<lambda>p. fst p \<notin> A) xs) i = (if i \<in> A then None else map_of xs i)"
  by (induction xs) auto

lemma map_of_set_body:
  "map_of (map (\<lambda>p. if fst p = j then (fst p, (snd p)\<lparr>body := f\<rparr>) else p) xs) i =
     (if i = j then map_option (\<lambda>t. t\<lparr>body := f\<rparr>) (map_of xs j) else map_of xs i)"
  by (induction xs) auto

lemma map_of_snoc_other: "i \<noteq> n \<Longrightarrow> (m1(n \<mapsto> t) ++ m2) i = (m1 ++ m2) i"
  by (simp add: map_add_def split: option.splits)

lemma map_of_fresh: "\<forall>p\<in>set xs. fst p < (n::nat) \<Longrightarrow> n \<le> i \<Longrightarrow> map_of xs i = None"
  by (induction xs) auto

lemma map_of_snoc_new:
  "\<forall>p\<in>set xs. fst p < (n::nat) \<Longrightarrow> ([n \<mapsto> t] ++ map_of xs) n = Some t"
  by (simp add: map_add_def map_of_fresh)

lemma count_list_fresh: "\<forall>i\<in>set xs. i < (n::nat) \<Longrightarrow> count_list xs n = 0"
  by (induction xs) auto

lemma fold_clearTimer:
  "fold clearTimer js s = s\<lparr>pending := filter (\<lambda>p. fst p \<notin> set js) (pending s)\<rparr>"
proof (induction js arbitrary: s)
  case Nil
  then show ?case by simp
next
  case (Cons j js)
  have "filter (\<lambda>p. fst p \<notin> set js) (filter (\<lambda>p. fst p \<noteq> j) (pending s)) =
        filter (\<lambda>p. fst p \<notin> set (j # js)) (pending s)"
    by (induction "pending s") (auto intro: filter_cong)
  with Cons show ?case by (simp add: clearTimer_def)
qed

subsection \<open>What each method does to each field\<close>

lemma init_proj [simp]:
  "pending (init s) = pending s" "next_id (init s) = next_id s" "timers (init s) = timers s"
  "ran (init s) = ran s" "called (init s) = called s"
  "waves (init s) = Some (length (heap s))" "birds (init s) = Some (length (heap s) + 1)"
  "waves2 (init s) = Some (length (heap s) + 2)"
  by (simp_all add: init_def Let_def)

lemma scheduleNextBird_proj [simp]:
  "pending (scheduleNextBird u s) =
     pending s @ [(next_id s, \<lparr>kind = Timeout, delay = u * 17000 + 8000, body = BirdCue\<rparr>)]"
  "next_id (scheduleNextBird u s) = Suc (next_id s)"
  "timers (scheduleNextBird u s) = timers s @ [next_id s]"
  "ran (scheduleNextBird u s) = ran s" "called (scheduleNextBird u s) = called s"
  "heap (scheduleNextBird u s) = heap s" "waves (scheduleNextBird u s) = waves s"
  "birds (scheduleNextBird u s) = birds s" "waves2 (scheduleNextBird u s) = waves2 s"
  by (simp_all add: scheduleNextBird_def setTimer_def)

lemma scheduleWaves2_proj [simp]:
  "pending (scheduleWaves2 u s) =
     pending s @ [(next_id s, \<lparr>kind = Timeout, delay = u * 20000 + 10000, body = SwellCue\<rparr>)]"
  "next_id (scheduleWaves2 u s) = Suc (next_id s)"
  "timers (scheduleWaves2 u s) = timers s @ [next_id s]"
  "ran (scheduleWaves2 u s) = ran s" "called (scheduleWaves2 u s) = called s"
  "heap (scheduleWaves2 u s) = heap s" "waves (scheduleWaves2 u s) = waves s"
  "birds (scheduleWaves2 u s) = birds s" "waves2 (scheduleWaves2 u s) = waves2 s"
  by (simp_all add: scheduleWaves2_def setTimer_def)

lemma fadeAudio_proj [simp]:
  "pending (fadeAudio a sv ev du cb s) =
     pending s @ [(next_id s, \<lparr>kind = Interval, delay = du / 60,
                               body = FadeTick a sv ((ev - sv) / 60) 0 cb\<rparr>)]"
  "next_id (fadeAudio a sv ev du cb s) = Suc (next_id s)"
  "timers (fadeAudio a sv ev du cb s) = timers s @ [next_id s]"
  "ran (fadeAudio a sv ev du cb s) = ran s" "called (fadeAudio a sv ev du cb s) = called s"
  "heap (fadeAudio a sv ev du cb s) = heap s" "waves (fadeAudio a sv ev du cb s) = waves s"
  "birds (fadeAudio a sv ev du cb s) = birds s" "waves2 (fadeAudio a sv ev du cb s) = waves2 s"
  by (simp_all add: fadeAudio_def setTimer_def Let_def)

lemma upd_audio_proj [simp]:
  "pending (upd_audio r f s) = pending s" "next_id (upd_audio r f s) = next_id s"
  "timers (upd_audio r f s) = timers s" "ran (upd_audio r f s) = ran s"
  "called (upd_audio r f s) = called s" "waves (upd_audio r f s) = waves s"
  "birds (upd_audio r f s) = birds s" "waves2 (upd_audio r f s) = waves2 s"
  "heap (upd_audio r f s) = (heap s)[r := f (heap s ! r)]"
  by (simp_all add: upd_audio_def)

lemma play_proj [simp]:
  "pending (play ok r s) = pending s" "next_id (play ok r s) = next_id s"
  "timers (play ok r s) = timers s" "ran (play ok r s) = ran s"
  "called (play ok r s) = called s" "waves (play ok r s) = waves s"
  "birds (play ok r s) = birds s" "waves2 (play ok r s) = waves2 s"
  "length (heap (play ok r s)) = length (heap s)"
  by (simp_all add: play_def)

lemma pause_proj [simp]:
  "pending (pause r s) = pending s" "next_id (pause r s) = next_id s"
  "timers (pause r s) = timers s" "ran (pause r s) = ran s"
  "called (pause r s) = called s" "waves (pause r s) = waves s"
  "birds (pause r s) = birds s" "waves2 (pause r s) = waves2 s"
  "heap (pause r s) = (heap s)[r := (heap s ! r)\<lparr>paused := True\<rparr>]"
  by (simp_all add: pause_def)

lemma clearTimer_proj [simp]:
  "pending (clearTimer i s) = filter (\<lambda>p. fst p \<noteq> i) (pending s)"
  "next_id (clearTimer i s) = next_id s" "timers (clearTimer i s) = timers s"
  "ran (clearTimer i s) = ran s" "called (clearTimer i s) = called s"
  "heap (clearTimer i s) = heap s" "waves (clearTimer i s) = waves s"
  "birds (clearTimer i s) = birds s" "waves2 (clearTimer i s) = waves2 s"
  by (simp_all add: clearTimer_def)

lemma set_body_proj [simp]:
  "pending (set_body i f s) =
     map (\<lambda>p. if fst p = i then (fst p, (snd p)\<lparr>body := f\<rparr>) else p) (pending s)"
  "next_id (set_body i f s) = next_id s" "timers (set_body i f s) = timers s"
  "ran (set_body i f s) = ran s" "called (set_body i f s) = called s"
  "heap (set_body i f s) = heap s" "waves (set_body i f s) = waves s"
  "birds (set_body i f s) = birds s" "waves2 (set_body i f s) = waves2 s"
  by (simp_all add: set_body_def)

lemma stop_proj [simp]:
  "pending (stop s) = filter (\<lambda>p. fst p \<notin> set (timers s)) (pending s)"
  "next_id (stop s) = next_id s" "timers (stop s) = []"
  "ran (stop s) = ran s" "called (stop s) = called s"
  "waves (stop s) = waves s" "birds (stop s) = birds s" "waves2 (stop s) = waves2 s"
  by (simp_all add: stop_def Let_def fold_clearTimer split: option.splits)

lemma start_proj [simp]:
  "pending (start d s) = pending s @
     [(next_id s, \<lparr>kind = Timeout, delay = rnd1 d * 17000 + 8000, body = BirdCue\<rparr>),
      (Suc (next_id s), \<lparr>kind = Timeout, delay = rnd2 d * 20000 + 10000, body = SwellCue\<rparr>)]"
  "next_id (start d s) = Suc (Suc (next_id s))"
  "timers (start d s) = timers s @ [next_id s, Suc (next_id s)]"
  "ran (start d s) = ran s" "called (start d s) = called s"
  by (simp_all add: start_def Let_def split: option.splits)


lemma playWaves2Swell_proj [simp]:
  "next_id (playWaves2Swell d s) = (if waves2 s = None then next_id s else Suc (next_id s))"
  "timers (playWaves2Swell d s) = (if waves2 s = None then timers s else timers s @ [next_id s])"
  "ran (playWaves2Swell d s) = ran s" "called (playWaves2Swell d s) = called s"
  "waves (playWaves2Swell d s) = waves s" "birds (playWaves2Swell d s) = birds s"
  "waves2 (playWaves2Swell d s) = waves2 s"
  "length (heap (playWaves2Swell d s)) = length (heap s)"
  by (simp_all add: playWaves2Swell_def Let_def split: option.splits)

lemma playWaves2Swell_pending:
  "pending (playWaves2Swell d s) =
     (case waves2 s of None \<Rightarrow> pending s
      | Some w \<Rightarrow> pending s @
          [(next_id s, \<lparr>kind = Interval, delay = (rnd3 d * 3000 + 2000) / 60,
             body = FadeTick (Some w) 0 ((rnd1 d * 0.5 + 0.3 - 0) / 60) 0
                      (AfterFadeIn (rnd1 d * 0.5 + 0.3) (rnd2 d * 10000 + 8000)
                         (rnd4 d * 3000 + 2000))\<rparr>)])"
  by (simp add: playWaves2Swell_def Let_def split: option.splits)

subsection \<open>Every armed timer is registered\<close>

lemma registered_invoke_cb:
  "registered s \<Longrightarrow> registered (invoke_cb i cb d s)"
  by (cases cb) (auto simp: registered_def setTimer_def Let_def split: option.splits)

lemma registered_run_callback:
  "registered s \<Longrightarrow> registered (run_callback i f d s)"
proof (cases f)
  case (FadeTick a sv vs n cb)
  assume r: "registered s"
  have "registered (clearTimer i (upd_audio x g (set_body i f' s)))" for x g f'
    using r by (auto simp: registered_def)
  moreover have "registered (upd_audio x g (set_body i f' s))" for x g f'
    using r by (auto simp: registered_def)
  moreover have "registered (set_body i f' s)" for f'
    using r by (auto simp: registered_def)
  ultimately show ?thesis
    using FadeTick by (simp add: Let_def registered_invoke_cb split: option.splits)
qed (auto simp: registered_def playWaves2Swell_pending Let_def split: option.splits)

lemma registered_fire: "registered s \<Longrightarrow> registered (fire i d s)"
proof -
  assume r: "registered s"
  have a: "registered ((clearTimer i s)\<lparr>ran := ran (clearTimer i s) @ [i]\<rparr>)"
    using r by (auto simp: registered_def)
  have b: "registered (s\<lparr>ran := ran s @ [i]\<rparr>)"
    using r by (auto simp: registered_def)
  show ?thesis
    using a b r by (simp add: fire_def Let_def registered_run_callback split: option.splits)
qed

lemma registered_step: "registered s \<Longrightarrow> registered (step e s)"
proof (cases e)
  case (Fire i d)
  assume "registered s"
  then show ?thesis using Fire by (simp add: registered_fire)
qed (auto simp: registered_def ended_def Let_def)

lemma registered_run: "registered s \<Longrightarrow> registered (run es s)"
  by (induction es arbitrary: s) (simp_all add: run_def registered_step)

lemma registered_loaded: "registered loaded"
  by (simp add: registered_def loaded_def initial_def)



subsection \<open>A quiet state stays quiet\<close>




subsection \<open>Without a second init the store keeps its three elements\<close>








subsection \<open>Handles stay below the next handle\<close>

lemma fresh_invoke_cb: "fresh s \<Longrightarrow> i < next_id s \<Longrightarrow> fresh (invoke_cb i cb d s)"
  by (cases cb) (auto simp: fresh_def setTimer_def Let_def less_Suc_eq split: option.splits)

lemma fresh_run_callback: "fresh s \<Longrightarrow> i < next_id s \<Longrightarrow> fresh (run_callback i f d s)"
proof (cases f)
  case (FadeTick a sv vs n cb)
  assume r: "fresh s" and i: "i < next_id s"
  have "fresh (clearTimer i (upd_audio x g (set_body i f' s)))" for x g f'
    using r by (auto simp: fresh_def)
  moreover have "fresh (upd_audio x g (set_body i f' s))" for x g f'
    using r by (auto simp: fresh_def)
  moreover have "fresh (set_body i f' s)" for f'
    using r by (auto simp: fresh_def)
  ultimately show ?thesis
    using FadeTick i by (simp add: Let_def fresh_invoke_cb split: option.splits)
qed (auto simp: fresh_def playWaves2Swell_pending Let_def less_Suc_eq split: option.splits)

lemma fresh_fire: "fresh s \<Longrightarrow> fresh (fire i d s)"
proof (cases "map_of (pending s) i")
  case None
  assume "fresh s"
  with None show ?thesis by (simp add: fire_def)
next
  case (Some t)
  assume r: "fresh s"
  from Some have "(i, t) \<in> set (pending s)" by (rule map_of_SomeD)
  with r have i: "i < next_id s" by (auto simp: fresh_def)
  have a: "fresh ((clearTimer i s)\<lparr>ran := ran (clearTimer i s) @ [i]\<rparr>)"
    using r i by (auto simp: fresh_def)
  have b: "fresh (s\<lparr>ran := ran s @ [i]\<rparr>)"
    using r i by (auto simp: fresh_def)
  show ?thesis
    using a b i Some by (simp add: fire_def Let_def fresh_run_callback)
qed

lemma fresh_step: "fresh s \<Longrightarrow> fresh (step e s)"
proof (cases e)
  case (Fire i d)
  assume "fresh s"
  then show ?thesis using Fire by (simp add: fresh_fire)
qed (auto simp: fresh_def ended_def Let_def less_Suc_eq)

lemma fresh_run: "fresh s \<Longrightarrow> fresh (run es s)"
  by (induction es arbitrary: s) (simp_all add: run_def fresh_step)

lemma fresh_loaded: "fresh loaded"
  by (simp add: fresh_def loaded_def initial_def)

subsection \<open>Events that leave a given timer alone\<close>

lemma frame_invoke_cb:
  "iv < next_id s \<Longrightarrow> j \<noteq> iv \<Longrightarrow>
     next_id s \<le> next_id (invoke_cb j cb d s) \<and>
     map_of (pending (invoke_cb j cb d s)) iv = map_of (pending s) iv \<and>
     ran (invoke_cb j cb d s) = ran s \<and>
     count_list (called (invoke_cb j cb d s)) iv = count_list (called s) iv"
  by (cases cb) (auto simp: setTimer_def Let_def map_of_snoc_other split: option.splits)

lemma own_invoke_cb:
  "iv < next_id s \<Longrightarrow>
     next_id s \<le> next_id (invoke_cb iv cb d s) \<and>
     map_of (pending (invoke_cb iv cb d s)) iv = map_of (pending s) iv \<and>
     ran (invoke_cb iv cb d s) = ran s \<and>
     count_list (called (invoke_cb iv cb d s)) iv =
       count_list (called s) iv + (if cb = NoCb then 0 else 1)"
  by (cases cb) (auto simp: setTimer_def Let_def map_of_snoc_other split: option.splits)

lemma frame_run_callback:
  "iv < next_id s \<Longrightarrow> j \<noteq> iv \<Longrightarrow>
     next_id s \<le> next_id (run_callback j f d s) \<and>
     map_of (pending (run_callback j f d s)) iv = map_of (pending s) iv \<and>
     ran (run_callback j f d s) = ran s \<and>
     count_list (called (run_callback j f d s)) iv = count_list (called s) iv"
proof (cases f)
  case (FadeTick a sv vs n cb)
  assume iv: "iv < next_id s" and j: "j \<noteq> iv"
  show ?thesis
  proof (cases a)
    case None
    with FadeTick iv j show ?thesis by (simp add: Let_def map_of_set_body)
  next
    case (Some r)
    let ?s2 = "upd_audio r
        (\<lambda>x. x\<lparr>volume := max 0 (min 1 (sv + vs * real (n + 1)))\<rparr>)
        (set_body j (FadeTick a sv vs (n + 1) cb) s)"
    have s2: "next_id ?s2 = next_id s" "map_of (pending ?s2) iv = map_of (pending s) iv"
      "ran ?s2 = ran s" "called ?s2 = called s"
      using j by (simp_all add: map_of_set_body)
    have c: "iv < next_id (clearTimer j ?s2)" using iv by simp
    show ?thesis
      using FadeTick Some j iv s2 frame_invoke_cb [OF c j, of cb d]
      by (simp add: Let_def map_of_filter_ne)
  qed
qed (auto simp: playWaves2Swell_pending Let_def map_of_snoc_other split: option.splits)

lemma frame_fire:
  "iv < next_id s \<Longrightarrow> j \<noteq> iv \<Longrightarrow>
     next_id s \<le> next_id (fire j d s) \<and>
     map_of (pending (fire j d s)) iv = map_of (pending s) iv \<and>
     count_list (ran (fire j d s)) iv = count_list (ran s) iv \<and>
     count_list (called (fire j d s)) iv = count_list (called s) iv"
proof (cases "map_of (pending s) j")
  case None
  then show ?thesis by (simp add: fire_def)
next
  case (Some t)
  assume iv: "iv < next_id s" and j: "j \<noteq> iv"
  let ?s1 = "if kind t = Timeout then clearTimer j s else s"
  let ?s2 = "?s1\<lparr>ran := ran ?s1 @ [j]\<rparr>"
  have s2: "next_id ?s2 = next_id s" "map_of (pending ?s2) iv = map_of (pending s) iv"
    "count_list (ran ?s2) iv = count_list (ran s) iv" "called ?s2 = called s"
    using j by (simp_all add: map_of_filter_ne)
  have c: "iv < next_id ?s2" using iv s2 by simp
  have "fire j d s = run_callback j (body t) d ?s2"
    using Some by (simp add: fire_def Let_def)
  then show ?thesis
    using frame_run_callback [OF c j, of "body t" d] s2 by simp
qed

lemma frame_step:
  "iv < next_id s \<Longrightarrow> e \<noteq> Stop \<Longrightarrow> \<forall>d. e \<noteq> Fire iv d \<Longrightarrow>
     next_id s \<le> next_id (step e s) \<and>
     map_of (pending (step e s)) iv = map_of (pending s) iv \<and>
     count_list (ran (step e s)) iv = count_list (ran s) iv \<and>
     count_list (called (step e s)) iv = count_list (called s) iv"
proof (cases e)
  case (Fire j d)
  assume "iv < next_id s" "\<forall>d. e \<noteq> Fire iv d"
  with Fire show ?thesis by (simp add: frame_fire)
qed (auto simp: ended_def Let_def map_of_snoc_other split: option.splits)


subsection \<open>One step of an envelope\<close>



lemma fire_tick_unfold:
  assumes "map_of (pending s) iv =
             Some \<lparr>kind = Interval, delay = dl, body = FadeTick (Some r) sv vs n cb\<rparr>"
  shows "fire iv d s =
     (let s2 = upd_audio r (\<lambda>x. x\<lparr>volume := max 0 (min 1 (sv + vs * real (Suc n)))\<rparr>)
                 (set_body iv (FadeTick (Some r) sv vs (Suc n) cb) (s\<lparr>ran := ran s @ [iv]\<rparr>))
      in if 60 \<le> Suc n then invoke_cb iv cb d (clearTimer iv s2) else s2)"
  using assms by (simp add: fire_def Let_def)

lemma fire_tick_early:
  assumes "map_of (pending s) iv =
             Some \<lparr>kind = Interval, delay = dl, body = FadeTick (Some r) sv vs n cb\<rparr>"
      and "Suc n < 60"
  shows "map_of (pending (fire iv d s)) iv =
           Some \<lparr>kind = Interval, delay = dl, body = FadeTick (Some r) sv vs (Suc n) cb\<rparr>"
    and "ran (fire iv d s) = ran s @ [iv]"
    and "called (fire iv d s) = called s"
    and "next_id (fire iv d s) = next_id s"
  using assms by (simp_all add: fire_tick_unfold [OF assms(1)] Let_def map_of_set_body)

lemma fire_tick_last:
  assumes "map_of (pending s) iv =
             Some \<lparr>kind = Interval, delay = dl, body = FadeTick (Some r) sv vs n cb\<rparr>"
      and "60 \<le> Suc n" and "iv < next_id s"
  shows "map_of (pending (fire iv d s)) iv = None"
    and "ran (fire iv d s) = ran s @ [iv]"
    and "count_list (called (fire iv d s)) iv =
           count_list (called s) iv + (if cb = NoCb then 0 else 1)"
    and "next_id s \<le> next_id (fire iv d s)"
proof -
  let ?s2 = "clearTimer iv (upd_audio r
      (\<lambda>x. x\<lparr>volume := max 0 (min 1 (sv + vs * real (Suc n)))\<rparr>)
      (set_body iv (FadeTick (Some r) sv vs (Suc n) cb) (s\<lparr>ran := ran s @ [iv]\<rparr>)))"
  have f: "fire iv d s = invoke_cb iv cb d ?s2"
    using assms(2) by (simp add: fire_tick_unfold [OF assms(1)] Let_def)
  have s2: "next_id ?s2 = next_id s" "map_of (pending ?s2) iv = None"
    "ran ?s2 = ran s @ [iv]" "called ?s2 = called s"
    by (simp_all add: map_of_filter_ne)
  have c: "iv < next_id ?s2" using assms(3) by simp
  note o = own_invoke_cb [OF c, of cb d]
  show "map_of (pending (fire iv d s)) iv = None" using o s2 f by simp
  show "ran (fire iv d s) = ran s @ [iv]" using o s2 f by simp
  show "count_list (called (fire iv d s)) iv =
          count_list (called s) iv + (if cb = NoCb then 0 else 1)"
    using o s2 f by simp
  show "next_id s \<le> next_id (fire iv d s)" using o s2 f by simp
qed


subsection \<open>The phase of an envelope follows the events\<close>

lemma adv_other: "e \<noteq> Stop \<Longrightarrow> \<forall>d. e \<noteq> Fire iv d \<Longrightarrow> adv iv e p = p"
  by (cases e; cases p) auto

lemma tracks_step:
  assumes reg: "registered s" and tr: "tracks iv r sv vs cb p s"
  shows "tracks iv r sv vs cb (adv iv e p) (step e s)"
proof -
  from tr have iv: "iv < next_id s" by (simp add: tracks_def)
  consider (stop) "e = Stop" | (tick) d where "e = Fire iv d"
    | (other) "e \<noteq> Stop" "\<forall>d. e \<noteq> Fire iv d"
    by blast
  then show ?thesis
  proof cases
    case other
    from frame_step [OF iv other] adv_other [OF other] tr show ?thesis
      by (cases p) (auto simp: tracks_def)
  next
    case stop
    show ?thesis
    proof (cases p)
      case (Alive n)
      with tr obtain t where "map_of (pending s) iv = Some t"
        by (auto simp: tracks_def)
      then have "(iv, t) \<in> set (pending s)" by (rule map_of_SomeD)
      with reg have "iv \<in> set (timers s)" by (auto simp: registered_def)
      with tr Alive stop show ?thesis
        by (auto simp: tracks_def map_of_filter_notin)
    next
      case Cancelled
      with tr stop show ?thesis by (auto simp: tracks_def map_of_filter_notin)
    next
      case Completed
      with tr stop show ?thesis by (auto simp: tracks_def map_of_filter_notin)
    qed
  next
    case tick
    show ?thesis
    proof (cases p)
      case (Alive n)
      with tr obtain dl where
        e: "map_of (pending s) iv =
              Some \<lparr>kind = Interval, delay = dl, body = FadeTick (Some r) sv vs n cb\<rparr>"
        and n: "n < 60" "count_list (ran s) iv = n" "count_list (called s) iv = 0"
        by (auto simp: tracks_def)
      show ?thesis
      proof (cases "Suc n < 60")
        case True
        from fire_tick_early [OF e True, of d] n iv True tick Alive show ?thesis
          by (simp add: tracks_def)
      next
        case False
        then have l: "60 \<le> Suc n" by simp
        from fire_tick_last [OF e l iv, of d] n iv l tick Alive show ?thesis
          by (simp add: tracks_def)
      qed
    next
      case Cancelled
      with tr tick show ?thesis by (simp add: tracks_def fire_def)
    next
      case Completed
      with tr tick show ?thesis by (simp add: tracks_def fire_def)
    qed
  qed
qed

lemma tracks_run:
  "registered s \<Longrightarrow> tracks iv r sv vs cb p s \<Longrightarrow>
     tracks iv r sv vs cb (fold (adv iv) es p) (run es s)"
proof (induction es arbitrary: s p)
  case Nil
  then show ?case by (simp add: run_def)
next
  case (Cons e es)
  from Cons.prems have "registered (step e s)" "tracks iv r sv vs cb (adv iv e p) (step e s)"
    by (simp_all add: registered_step tracks_step)
  from Cons.IH [OF this] show ?case by (simp add: run_def)
qed

lemma tracks_fadeAudio:
  assumes "fresh s"
  shows "tracks (next_id s) r sv ((ev - sv) / 60) cb (Alive 0)
           (fadeAudio (Some r) sv ev du cb s)"
  using assms
  by (auto simp: tracks_def fresh_def map_of_snoc_new count_list_fresh
      intro!: exI [of _ "du / 60"])

lemma adv_Completed: "adv iv e Completed = Completed"
  by (cases e) simp_all

lemma adv_Cancelled: "adv iv e Cancelled = Cancelled"
  by (cases e) simp_all

lemma adv_no_stop:
  "Stop \<notin> set es \<Longrightarrow> n < 60 \<Longrightarrow>
     fold (adv iv) es (Alive n) =
       (if n + fires iv es < 60 then Alive (n + fires iv es) else Completed)"
proof (induction es arbitrary: n)
  case Nil
  then show ?case by simp
next
  case (Cons e es)
  have fin: "fold (adv iv) es Completed = Completed" for es
    by (induction es) (simp_all add: adv_Completed)
  show ?case
  proof (cases "\<exists>d. e = Fire iv d")
    case True
    then obtain d where e: "e = Fire iv d" by blast
    show ?thesis
    proof (cases "Suc n < 60")
      case True
      with Cons e show ?thesis by simp
    next
      case False
      with Cons.prems e fin show ?thesis by simp
    qed
  next
    case False
    with Cons.prems have o: "e \<noteq> Stop" "\<forall>d. e \<noteq> Fire iv d" by auto
    then have "fires iv (e # es) = fires iv es" by (cases e) auto
    with Cons o show ?thesis by (simp add: adv_other)
  qed
qed

subsection \<open>Reachable states and whole runs\<close>






lemma run_snoc: "run (es @ [e]) s = step e (run es s)"
  by (simp add: run_def)

lemma run_Cons: "run (e # es) s = run es (step e s)"
  by (simp add: run_def)

lemma registered_reach: "registered (run es loaded)"
  by (rule registered_run [OF registered_loaded])

lemma fresh_reach: "fresh (run es loaded)"
  by (rule fresh_run [OF fresh_loaded])

lemma registered_fadeAudio: "registered s \<Longrightarrow> registered (fadeAudio a sv ev du cb s)"
  using registered_step [of s "Fade a sv ev du cb"] by simp

lemma tracks_fade_run:
  "tracks (next_id (run es0 loaded)) r sv ((ev - sv) / 60) cb
     (fold (adv (next_id (run es0 loaded))) es (Alive 0))
     (run es (fadeAudio (Some r) sv ev du cb (run es0 loaded)))"
  by (intro tracks_run registered_fadeAudio registered_reach tracks_fadeAudio fresh_reach)

lemma adv_not_completed:
  "n + fires iv es < 60 \<Longrightarrow> fold (adv iv) es (Alive n) \<noteq> Completed"
proof (induction es arbitrary: n)
  case Nil
  then show ?case by simp
next
  case (Cons e es)
  have canc: "fold (adv iv) es Cancelled = Cancelled" for es
    by (induction es) (simp_all add: adv_Cancelled)
  show ?case
  proof (cases e)
    case (Fire i d)
    with Cons show ?thesis by (cases "i = iv") auto
  next
    case Stop
    with canc show ?thesis by simp
  qed (use Cons in auto)
qed

lemma adv_stop_cancels:
  assumes "fires iv es1 < 60"
  shows "fold (adv iv) (es1 @ Stop # es2) (Alive 0) = Cancelled"
proof -
  have canc: "fold (adv iv) es Cancelled = Cancelled" for es
    by (induction es) (simp_all add: adv_Cancelled)
  from assms have "fold (adv iv) es1 (Alive 0) \<noteq> Completed"
    using adv_not_completed [of 0 iv es1] by simp
  then have "adv iv Stop (fold (adv iv) es1 (Alive 0)) = Cancelled"
    by (cases "fold (adv iv) es1 (Alive 0)") simp_all
  then show ?thesis by (simp add: canc)
qed

subsection \<open>Lists of timers and of elements\<close>

lemma filter_set_body:
  "filter (\<lambda>p. fst p \<noteq> i)
     (map (\<lambda>p. if fst p = i then (fst p, (snd p)\<lparr>body := f\<rparr>) else p) xs) =
   filter (\<lambda>p. fst p \<noteq> i) xs"
  by (induction xs) auto

lemma playing_append:
  assumes "list_all paused ys"
  shows "filter (\<lambda>r. \<not> paused ((xs @ ys) ! r)) [0..<length (xs @ ys)] =
         filter (\<lambda>r. \<not> paused (xs ! r)) [0..<length xs]"
proof -
  have s: "[0..<length (xs @ ys)] = [0..<length xs] @ [length xs..<length xs + length ys]"
    unfolding length_append by (rule upt_add_eq_append) simp
  have a: "filter (\<lambda>r. \<not> paused ((xs @ ys) ! r)) [0..<length xs] =
           filter (\<lambda>r. \<not> paused (xs ! r)) [0..<length xs]"
    by (rule filter_cong) (simp_all add: nth_append)
  have b: "filter (\<lambda>r. \<not> paused ((xs @ ys) ! r)) [length xs..<length xs + length ys] = []"
    using assms by (auto simp: filter_empty_conv nth_append list_all_length)
  show ?thesis unfolding s filter_append a b by simp
qed

section \<open>Claims\<close>

subsection \<open>C1\<close>




subsection \<open>C2\<close>

text \<open>
  Claim C2, as the code has it. \<^verbatim>\<open>fadeAudio\<close> never cancels an envelope. After two
  calls on the same element both intervals are armed, and as long as \<^verbatim>\<open>stop()\<close> is not
  called each of the two envelopes invokes its own completion callback exactly once, when
  its own interval has come due 60 times.
\<close>

theorem fadeAudio_no_supersede:
  assumes "Stop \<notin> set es"
  shows "let s = run es0 loaded; iv1 = next_id s; iv2 = Suc (next_id s);
             s2 = fadeAudio (Some r) sv2 ev2 du2 (UserCb c2)
                    (fadeAudio (Some r) sv1 ev1 du1 (UserCb c1) s)
         in pending s2 = pending s @
              [(iv1, \<lparr>kind = Interval, delay = du1 / 60,
                      body = FadeTick (Some r) sv1 ((ev1 - sv1) / 60) 0 (UserCb c1)\<rparr>),
               (iv2, \<lparr>kind = Interval, delay = du2 / 60,
                      body = FadeTick (Some r) sv2 ((ev2 - sv2) / 60) 0 (UserCb c2)\<rparr>)] \<and>
            count_list (called (run es s2)) iv1 = (if fires iv1 es < 60 then 0 else 1) \<and>
            count_list (called (run es s2)) iv2 = (if fires iv2 es < 60 then 0 else 1)"
proof -
  let ?s = "run es0 loaded"
  let ?s1 = "fadeAudio (Some r) sv1 ev1 du1 (UserCb c1) ?s"
  let ?s2 = "fadeAudio (Some r) sv2 ev2 du2 (UserCb c2) ?s1"
  let ?e2 = "Fade (Some r) sv2 ev2 du2 (UserCb c2)"
  have one: "run es ?s2 = run (?e2 # es) ?s1"
    by (simp add: run_Cons)
  have st: "Stop \<notin> set (?e2 # es)" using assms by simp
  have p1: "fold (adv (next_id ?s)) (?e2 # es) (Alive 0) =
              (if fires (next_id ?s) es < 60 then Alive (fires (next_id ?s) es) else Completed)"
    using adv_no_stop [OF st, of 0 "next_id ?s"] by simp
  have c1: "count_list (called (run es ?s2)) (next_id ?s) =
              (if fires (next_id ?s) es < 60 then 0 else 1)"
    using tracks_fade_run [of es0 r sv1 ev1 "UserCb c1" "?e2 # es" du1] p1
    by (auto simp: tracks_def one simp del: fold_simps)
  have two: "?s1 = run (es0 @ [Fade (Some r) sv1 ev1 du1 (UserCb c1)]) loaded"
    by (simp add: run_snoc)
  have n2: "next_id ?s1 = Suc (next_id ?s)" by simp
  have p2: "fold (adv (Suc (next_id ?s))) es (Alive 0) =
              (if fires (Suc (next_id ?s)) es < 60 then Alive (fires (Suc (next_id ?s)) es)
               else Completed)"
    using adv_no_stop [OF assms, of 0 "Suc (next_id ?s)"] by simp
  have c2: "count_list (called (run es ?s2)) (Suc (next_id ?s)) =
              (if fires (Suc (next_id ?s)) es < 60 then 0 else 1)"
    using tracks_fade_run [of "es0 @ [Fade (Some r) sv1 ev1 du1 (UserCb c1)]" r sv2 ev2
        "UserCb c2" es du2] p2
    unfolding two [symmetric] n2
    by (auto simp: tracks_def)
  show ?thesis using c1 c2 by (simp add: Let_def)
qed

theorem fadeAudio_no_supersede_witness:
  "Stop \<notin> set (concat (replicate 60 [Fire 3 mid, Fire 4 mid])) \<and>
   fires 3 (concat (replicate 60 [Fire 3 mid, Fire 4 mid])) = 60 \<and>
   fires 4 (concat (replicate 60 [Fire 3 mid, Fire 4 mid])) = 60 \<and>
   count_list (called (run (concat (replicate 60 [Fire 3 mid, Fire 4 mid]))
     (fadeAudio (Some 2) 1 0 900 (UserCb 2)
       (fadeAudio (Some 2) 0 1 900 (UserCb 1) (run [Start mid] loaded))))) 3 = 1 \<and>
   count_list (called (run (concat (replicate 60 [Fire 3 mid, Fire 4 mid]))
     (fadeAudio (Some 2) 1 0 900 (UserCb 2)
       (fadeAudio (Some 2) 0 1 900 (UserCb 1) (run [Start mid] loaded))))) 4 = 1"
proof -
  have n: "next_id (run [Start mid] loaded) = 3"
    by code_simp
  have h: "Stop \<notin> set (concat (replicate 60 [Fire 3 mid, Fire 4 mid]))"
    by code_simp
  have f: "fires 3 (concat (replicate 60 [Fire 3 mid, Fire 4 mid])) = 60"
    "fires (Suc 3) (concat (replicate 60 [Fire 3 mid, Fire 4 mid])) = 60"
    "fires 4 (concat (replicate 60 [Fire 3 mid, Fire 4 mid])) = 60"
    by code_simp+
  have k: "Suc 3 = 4" by simp
  note t = fadeAudio_no_supersede [OF h, of "[Start mid]" 2 1 0 900 2 0 1 900 1,
      unfolded Let_def n f]
  from t h f show ?thesis by (simp add: k)
qed

text \<open>
  Claim C2 as stated fails: two envelopes on the waves element (element 0), the second
  issued before the first has made a step, their intervals 1 and 2 coming due in turn. Both
  completion callbacks are invoked.
\<close>

theorem fadeAudio_no_supersede_counterexample:
  "map fst (pending (run [Fade (Some 0) 0 1 1000 (UserCb 1),
                          Fade (Some 0) 1 0 1000 (UserCb 2)] loaded)) = [1, 2] \<and>
   called (run ([Fade (Some 0) 0 1 1000 (UserCb 1), Fade (Some 0) 1 0 1000 (UserCb 2)] @
                concat (replicate 60 [Fire 1 mid, Fire 2 mid])) loaded) = [1, 2]"
  by code_simp

subsection \<open>C3\<close>

text \<open>
  Claim C3, as the code has it. \<^verbatim>\<open>start()\<close> has no guard: every call arms one more bird
  cue and one more swell cue and registers their two handles, whatever the state.
\<close>

theorem start_arms_again:
  "armed BirdCue (start d s) = Suc (armed BirdCue s) \<and>
   armed SwellCue (start d s) = Suc (armed SwellCue s) \<and>
   timers (start d s) = timers s @ [next_id s, Suc (next_id s)]"
  by (simp add: armed_def)

text \<open>
  Claim C3 as stated fails: after one \<^verbatim>\<open>start()\<close> one timer of each chain is armed, after
  two in a row two of each.
\<close>

theorem start_arms_again_counterexample:
  "armed BirdCue (run [Start mid] loaded) = 1 \<and>
   armed SwellCue (run [Start mid] loaded) = 1 \<and>
   armed BirdCue (run [Start mid, Start mid] loaded) = 2 \<and>
   armed SwellCue (run [Start mid, Start mid] loaded) = 2 \<and>
   map fst (pending (run [Start mid] loaded)) = [1, 2] \<and>
   map fst (pending (run [Start mid, Start mid] loaded)) = [1, 2, 3, 4]"
  by code_simp

subsection \<open>C4\<close>

text \<open>
  Claim C4. For a call \<^verbatim>\<open>fadeAudio(audio, startVol, endVol, duration, cb)\<close> with a
  callback, made in any reachable state and followed by any events: \<^verbatim>\<open>cb\<close> has been
  invoked once if the envelope has run all of its 60 steps, and not at all otherwise; and if
  \<^verbatim>\<open>stop()\<close> comes before the interval has come due 60 times, \<^verbatim>\<open>cb\<close> is never
  invoked, whatever follows.
\<close>

theorem fadeAudio_cb_once:
  assumes "cb \<noteq> NoCb"
  shows "let s = run es0 loaded; iv = next_id s;
             s0 = fadeAudio (Some r) startVol endVol duration cb s
         in count_list (called (run es s0)) iv =
              (if count_list (ran (run es s0)) iv = 60 then 1 else 0) \<and>
            (fires iv es1 < 60 \<longrightarrow>
               count_list (called (run (es1 @ Stop # es2) s0)) iv = 0)"
proof -
  let ?iv = "next_id (run es0 loaded)"
  let ?s0 = "fadeAudio (Some r) startVol endVol duration cb (run es0 loaded)"
  have "count_list (called (run es ?s0)) ?iv =
          (if count_list (ran (run es ?s0)) ?iv = 60 then 1 else 0)"
    using tracks_fade_run [of es0 r startVol endVol cb es duration] assms
    by (cases "fold (adv ?iv) es (Alive 0)") (auto simp: tracks_def)
  moreover have "count_list (called (run (es1 @ Stop # es2) ?s0)) ?iv = 0"
    if "fires ?iv es1 < 60"
    using tracks_fade_run [of es0 r startVol endVol cb "es1 @ Stop # es2" duration]
      adv_stop_cancels [OF that, of es2]
    by (simp add: tracks_def)
  ultimately show ?thesis by (simp add: Let_def)
qed

theorem fadeAudio_cb_once_witness:
  "UserCb 7 \<noteq> NoCb \<and> fires 3 (replicate 30 (Fire 3 mid)) < 60 \<and>
   count_list (ran (run (replicate 60 (Fire 3 mid))
     (fadeAudio (Some 2) 0 (4 / 5) 5000 (UserCb 7) (run [Start mid] loaded)))) 3 = 60 \<and>
   count_list (called (run (replicate 60 (Fire 3 mid))
     (fadeAudio (Some 2) 0 (4 / 5) 5000 (UserCb 7) (run [Start mid] loaded)))) 3 = 1 \<and>
   count_list (called (run (replicate 30 (Fire 3 mid) @ Stop # replicate 40 (Fire 3 mid))
     (fadeAudio (Some 2) 0 (4 / 5) 5000 (UserCb 7) (run [Start mid] loaded)))) 3 = 0"
proof -
  have n: "next_id (run [Start mid] loaded) = 3"
    by code_simp
  have h: "UserCb 7 \<noteq> NoCb"
    by simp
  have f: "fires 3 (replicate 30 (Fire 3 mid)) < 60"
    by code_simp
  have r: "count_list (ran (run (replicate 60 (Fire 3 mid))
     (fadeAudio (Some 2) 0 (4 / 5) 5000 (UserCb 7) (run [Start mid] loaded)))) 3 = 60"
    by code_simp
  note t = fadeAudio_cb_once [OF h, of "[Start mid]" 2 0 "4 / 5" 5000
      "replicate 60 (Fire 3 mid)" "replicate 30 (Fire 3 mid)" "replicate 40 (Fire 3 mid)",
      unfolded Let_def n r]
  from t h f r show ?thesis by simp
qed

subsection \<open>C5\<close>



subsection \<open>C6\<close>




subsection \<open>C7\<close>

text \<open>
  Claim C7, as the code has it. A cue firing does not re-arm its chain. The bird cue
  removes its own timer, plays the one-shot and arms nothing; the chain is re-armed, with a
  fresh delay \<^verbatim>\<open>Math.random() * 17000 + 8000\<close>, by the \<^verbatim>\<open>ended\<close> listener when the
  birds element has played to its end. The swell cue starts the fade-in and arms no swell
  cue; the chain is re-armed, with a fresh delay \<^verbatim>\<open>Math.random() * 20000 + 10000\<close>, by
  the completion callback of the fade-out, on the 60th step of that envelope.
\<close>

theorem cue_chains_rearm_later:
  "(map_of (pending s) i = Some t \<and> kind t = Timeout \<and> body t = BirdCue \<longrightarrow>
      pending (fire i d s) = pending (clearTimer i s)) \<and>
   (r < length (heap s) \<and> \<not> paused (heap s ! r) \<and> \<not> loop (heap s ! r) \<and>
    ended_hook (heap s ! r) \<longrightarrow>
      pending (ended r d s) = pending s @
        [(next_id s, \<lparr>kind = Timeout, delay = rnd1 d * 17000 + 8000, body = BirdCue\<rparr>)]) \<and>
   (map_of (pending s) i = Some t \<and> kind t = Timeout \<and> body t = SwellCue \<longrightarrow>
      armed SwellCue (fire i d s) = armed SwellCue (clearTimer i s)) \<and>
   (map_of (pending s) i = Some t \<and> kind t = Interval \<and>
    body t = FadeTick (Some r) sv vs 59 AfterFadeOut \<and> waves2 s \<noteq> None \<longrightarrow>
      pending (fire i d s) = pending (clearTimer i s) @
        [(next_id s, \<lparr>kind = Timeout, delay = rnd1 d * 20000 + 10000, body = SwellCue\<rparr>)])"
proof (intro conjI impI)
  assume "map_of (pending s) i = Some t \<and> kind t = Timeout \<and> body t = BirdCue"
  then show "pending (fire i d s) = pending (clearTimer i s)"
    by (simp add: fire_def Let_def split: option.splits)
next
  assume "r < length (heap s) \<and> \<not> paused (heap s ! r) \<and> \<not> loop (heap s ! r) \<and>
    ended_hook (heap s ! r)"
  then show "pending (ended r d s) = pending s @
      [(next_id s, \<lparr>kind = Timeout, delay = rnd1 d * 17000 + 8000, body = BirdCue\<rparr>)]"
    by (simp add: ended_def Let_def)
next
  assume "map_of (pending s) i = Some t \<and> kind t = Timeout \<and> body t = SwellCue"
  then show "armed SwellCue (fire i d s) = armed SwellCue (clearTimer i s)"
    by (simp add: fire_def Let_def armed_def playWaves2Swell_pending split: option.splits)
next
  assume a: "map_of (pending s) i = Some t \<and> kind t = Interval \<and>
    body t = FadeTick (Some r) sv vs 59 AfterFadeOut \<and> waves2 s \<noteq> None"
  then obtain w where w: "waves2 s = Some w" by auto
  from a have "t = \<lparr>kind = Interval, delay = delay t,
      body = FadeTick (Some r) sv vs 59 AfterFadeOut\<rparr>"
    by (cases t) simp
  with a have e: "map_of (pending s) i =
      Some \<lparr>kind = Interval, delay = delay t,
            body = FadeTick (Some r) sv vs 59 AfterFadeOut\<rparr>"
    by simp
  show "pending (fire i d s) = pending (clearTimer i s) @
      [(next_id s, \<lparr>kind = Timeout, delay = rnd1 d * 20000 + 10000, body = SwellCue\<rparr>)]"
    using w by (simp add: fire_tick_unfold [OF e] Let_def filter_set_body)
qed

theorem cue_chains_rearm_later_witness:
  "map_of (pending (run [Start mid, Start mid] loaded)) 3 =
     Some \<lparr>kind = Timeout, delay = 16500, body = BirdCue\<rparr> \<and>
   pending (fire 3 mid (run [Start mid, Start mid] loaded)) =
     pending (clearTimer 3 (run [Start mid, Start mid] loaded)) \<and>
   2 < length (heap (run [Start mid, Fire 1 mid] loaded)) \<and>
   \<not> paused (heap (run [Start mid, Fire 1 mid] loaded) ! 1) \<and>
   \<not> loop (heap (run [Start mid, Fire 1 mid] loaded) ! 1) \<and>
   ended_hook (heap (run [Start mid, Fire 1 mid] loaded) ! 1) \<and>
   armed BirdCue (run [Start mid, Fire 1 mid] loaded) = 0 \<and>
   armed BirdCue (ended 1 mid (run [Start mid, Fire 1 mid] loaded)) = 1 \<and>
   map_of (pending (run [Start mid, Start mid] loaded)) 4 =
     Some \<lparr>kind = Timeout, delay = 20000, body = SwellCue\<rparr> \<and>
   armed SwellCue (fire 4 mid (run [Start mid, Start mid] loaded)) =
     armed SwellCue (clearTimer 4 (run [Start mid, Start mid] loaded)) \<and>
   map_of (pending (run ([Start mid, Fire 1 mid, Fire 2 mid] @ replicate 60 (Fire 3 mid) @
       Fire 4 mid # replicate 59 (Fire 5 mid)) loaded)) 5 =
     Some \<lparr>kind = Interval, delay = 175 / 3,
           body = FadeTick (Some 2) (11 / 20) (- (11 / 1200)) 59 AfterFadeOut\<rparr> \<and>
   waves2 (run ([Start mid, Fire 1 mid, Fire 2 mid] @ replicate 60 (Fire 3 mid) @
       Fire 4 mid # replicate 59 (Fire 5 mid)) loaded) \<noteq> None \<and>
   armed SwellCue (run ([Start mid, Fire 1 mid, Fire 2 mid] @ replicate 60 (Fire 3 mid) @
       Fire 4 mid # replicate 59 (Fire 5 mid)) loaded) = 0 \<and>
   armed SwellCue (fire 5 mid (run ([Start mid, Fire 1 mid, Fire 2 mid] @ replicate 60 (Fire 3 mid) @
       Fire 4 mid # replicate 59 (Fire 5 mid)) loaded)) = 1"
proof -
  let ?a = "run [Start mid, Start mid] loaded"
  let ?b = "run [Start mid, Fire 1 mid] loaded"
  let ?c = "run ([Start mid, Fire 1 mid, Fire 2 mid] @ replicate 60 (Fire 3 mid) @
       Fire 4 mid # replicate 59 (Fire 5 mid)) loaded"
  have a: "map_of (pending ?a) 3 = Some \<lparr>kind = Timeout, delay = 16500, body = BirdCue\<rparr>"
    "map_of (pending ?a) 4 = Some \<lparr>kind = Timeout, delay = 20000, body = SwellCue\<rparr>"
    by code_simp+
  have b: "2 < length (heap ?b)" "\<not> paused (heap ?b ! 1)" "\<not> loop (heap ?b ! 1)"
    "ended_hook (heap ?b ! 1)" "armed BirdCue ?b = 0" "1 < length (heap ?b)"
    by code_simp+
  have c: "map_of (pending ?c) 5 =
     Some \<lparr>kind = Interval, delay = 175 / 3,
           body = FadeTick (Some 2) (11 / 20) (- (11 / 1200)) 59 AfterFadeOut\<rparr>"
    "waves2 ?c \<noteq> None" "armed SwellCue ?c = 0"
    by code_simp+
  note ta = cue_chains_rearm_later
    [of ?a 3 "\<lparr>kind = Timeout, delay = 16500, body = BirdCue\<rparr>" mid 0 0 0]
  note tb = cue_chains_rearm_later [of ?b 0 undefined mid 1 0 0]
  note tc = cue_chains_rearm_later
    [of ?a 4 "\<lparr>kind = Timeout, delay = 20000, body = SwellCue\<rparr>" mid 0 0 0]
  note td = cue_chains_rearm_later
    [of ?c 5 "\<lparr>kind = Interval, delay = 175 / 3,
           body = FadeTick (Some 2) (11 / 20) (- (11 / 1200)) 59 AfterFadeOut\<rparr>"
      mid 2 "11 / 20" "- (11 / 1200)"]
  have 1: "pending (fire 3 mid ?a) = pending (clearTimer 3 ?a)"
    using ta a by simp
  have 2: "armed BirdCue (ended 1 mid ?b) = 1"
    using tb b by (simp add: armed_def)
  have 3: "armed SwellCue (fire 4 mid ?a) = armed SwellCue (clearTimer 4 ?a)"
    using tc a by simp
  have 4: "armed SwellCue (fire 5 mid ?c) = 1"
    using td c by (simp add: armed_def filter_empty_conv)
  from a b c 1 2 3 4 show ?thesis by blast
qed

text \<open>
  Claim C7 as stated fails: after the bird cue (timer 1) has fired no bird cue is armed, and
  after the swell cue (timer 2) has fired as well no swell cue is armed; the only timer
  left is the interval of the fade-in.
\<close>

theorem cue_chains_rearm_later_counterexample:
  "ran (run [Start mid, Fire 1 mid] loaded) = [1] \<and>
   armed BirdCue (run [Start mid, Fire 1 mid] loaded) = 0 \<and>
   ran (run [Start mid, Fire 1 mid, Fire 2 mid] loaded) = [1, 2] \<and>
   armed SwellCue (run [Start mid, Fire 1 mid, Fire 2 mid] loaded) = 0 \<and>
   map fst (pending (run [Start mid, Fire 1 mid, Fire 2 mid] loaded)) = [3]"
  by code_simp

subsection \<open>C8\<close>

text \<open>
  Claim C8. \<^verbatim>\<open>init()\<close> gives the manager three fresh, paused elements with the volumes
  0.4, 0.6 and 0 and leaves the timer handles, the armed timers and the logs alone; so
  calling it a second time leaves the session as the first call left it. The elements are
  new objects each time, so the comparison is on what the manager reads through its
  references. \<^verbatim>\<open>init()\<close> starts no playback: the elements that are playing after it are
  those that were playing before it, and the three channels it creates are paused.
\<close>

theorem init_idempotent:
  "session_view (init s) =
     (Some \<lparr>src = ''waves.mp3'', loop = True, volume = 0.4, paused = True, currentTime = 0,
            ended_hook = False\<rparr>,
      Some \<lparr>src = ''birds.mp3'', loop = False, volume = 0.6, paused = True, currentTime = 0,
            ended_hook = True\<rparr>,
      Some \<lparr>src = ''waves2.mp3'', loop = True, volume = 0, paused = True, currentTime = 0,
            ended_hook = False\<rparr>,
      timers s, pending s, next_id s, ran s, called s) \<and>
   session_view (init (init s)) = session_view (init s) \<and>
   playing (init s) = playing s \<and>
   map (\<lambda>c. map_option paused (chan (init s) c))
     [waves (init s), birds (init s), waves2 (init s)] = [Some True, Some True, Some True]"
proof -
  have h: "heap (init s) = heap s @
      [(new_Audio ''waves.mp3'')\<lparr>loop := True, volume := 0.4\<rparr>,
       (new_Audio ''birds.mp3'')\<lparr>volume := 0.6, ended_hook := True\<rparr>,
       (new_Audio ''waves2.mp3'')\<lparr>volume := 0, loop := True\<rparr>]" for s
    by (simp add: init_def Let_def)
  have v: "session_view (init s) =
     (Some \<lparr>src = ''waves.mp3'', loop = True, volume = 0.4, paused = True, currentTime = 0,
            ended_hook = False\<rparr>,
      Some \<lparr>src = ''birds.mp3'', loop = False, volume = 0.6, paused = True, currentTime = 0,
            ended_hook = True\<rparr>,
      Some \<lparr>src = ''waves2.mp3'', loop = True, volume = 0, paused = True, currentTime = 0,
            ended_hook = False\<rparr>,
      timers s, pending s, next_id s, ran s, called s)" for s
    by (simp add: session_view_def chan_def h nth_append new_Audio_def)
  have i: "session_view (init (init s)) = session_view (init s)"
    unfolding v by simp
  have p: "playing (init s) = playing s"
    unfolding playing_def h by (rule playing_append) (simp add: new_Audio_def)
  have c: "map (\<lambda>c. map_option paused (chan (init s) c))
     [waves (init s), birds (init s), waves2 (init s)] = [Some True, Some True, Some True]"
    by (simp add: chan_def h nth_append new_Audio_def)
  from v [of s] i p c show ?thesis by blast
qed

subsection \<open>C9\<close>

text \<open>
  Claim C9. The delay of the timer that \<^verbatim>\<open>scheduleNextBird\<close> arms lies in the half-open
  range from 8000 to 25000 milliseconds, for every value of \<^verbatim>\<open>Math.random()\<close> in the
  half-open range from 0 to 1.
\<close>

theorem scheduleNextBird_delay_range:
  assumes "0 \<le> u" and "u < 1"
  shows "fst (last (pending (scheduleNextBird u s))) = next_id s \<and>
         body (snd (last (pending (scheduleNextBird u s)))) = BirdCue \<and>
         8000 \<le> delay (snd (last (pending (scheduleNextBird u s)))) \<and>
         delay (snd (last (pending (scheduleNextBird u s)))) < 25000"
  using assms by simp

theorem scheduleNextBird_delay_range_witness:
  "(0::real) \<le> 999 / 1000 \<and> (999 / 1000 :: real) < 1 \<and>
   delay (snd (last (pending (scheduleNextBird (999 / 1000) loaded)))) = 24983 \<and>
   (8000::real) \<le> 24983 \<and> (24983::real) < 25000"
proof -
  have a: "(0::real) \<le> 999 / 1000" and b: "(999 / 1000 :: real) < 1"
    by simp_all
  from scheduleNextBird_delay_range [OF a b, of loaded] show ?thesis by simp
qed

subsection \<open>C10\<close>



end
